theory Spec2Isabelle
  imports Main
begin

section \<open>The CSS selector builder of \<open>05-objects-tasks.js\<close>\<close>

subsection \<open>Data model\<close>

text \<open>
  The keys of \<open>orderValue\<close>, which are also the strings pushed onto \<open>this.order\<close> and the
  property names written into \<open>this.repeats\<close>.
\<close>

datatype kind = Element | Id | Class | Attr | PseudoClass | PseudoElement

text \<open>Both failures are a plain \<open>new Error(message)\<close>; only the message tells them apart.\<close>

datatype error = Error string

definition DuplicateFragmentError :: error where
  "DuplicateFragmentError =
     Error ''Element, id and pseudo-element should not occur more then one time inside the selector''"

definition OrderViolationError :: error where
  "OrderViolationError =
     Error ''Selector parts should be arranged in the following order: element, id, class, attribute, pseudo-class, pseudo-element''"

text \<open>
  The fields assigned by the constructor. \<open>repeats\<close> is a JS object used as a dictionary: a
  missing property reads as \<open>undefined\<close> (here \<open>None\<close>). \<open>orderValue\<close> is assigned once by
  the constructor and never written again, so it is the constant table below.
\<close>

record CssSelector =
  selector :: string
  repeats :: "kind \<rightharpoonup> bool"
  order :: "kind list"

fun orderValue :: "kind \<Rightarrow> nat" where
  "orderValue Element = 0"
| "orderValue Id = 1"
| "orderValue Class = 2"
| "orderValue Attr = 3"
| "orderValue PseudoClass = 4"
| "orderValue PseudoElement = 5"

definition constructor :: CssSelector where
  "constructor = \<lparr>selector = '''', repeats = Map.empty, order = []\<rparr>"

text \<open>What \<open>if (this.repeats.k)\<close> tests: \<open>undefined\<close> and \<open>false\<close> are falsy.\<close>

fun truthy :: "bool option \<Rightarrow> bool" where
  "truthy None = False"
| "truthy (Some b) = b"

subsection \<open>Methods of \<open>CssSelector\<close>\<close>

text \<open>
  \<open>checkOrder\<close>: the \<open>forEach\<close> over \<open>this.order\<close> is a fold whose accumulator is the local
  \<open>isInOrder\<close>.
\<close>

definition checkOrder :: "kind \<Rightarrow> CssSelector \<Rightarrow> bool" where
  "checkOrder value s =
     fold (\<lambda>el isInOrder. if orderValue value < orderValue el then False else isInOrder)
       (order s) True"

text \<open>
  A fragment method either throws or returns \<open>this\<close>. Its model returns the thrown error, if
  any, together with the object as the call leaves it, so that what a throwing call did to
  the object is part of the result.
\<close>

type_synonym outcome = "error option \<times> CssSelector"

definition element :: "string \<Rightarrow> CssSelector \<Rightarrow> outcome" where
  "element v s =
     (if truthy (repeats s Element) then (Some DuplicateFragmentError, s)
      else if \<not> checkOrder Element s then (Some OrderViolationError, s)
      else (None, s\<lparr>repeats := (repeats s)(Element \<mapsto> True),
                     selector := selector s @ v,
                     order := order s @ [Element]\<rparr>))"

definition id' :: "string \<Rightarrow> CssSelector \<Rightarrow> outcome" where
  "id' v s =
     (if truthy (repeats s Id) then (Some DuplicateFragmentError, s)
      else if \<not> checkOrder Id s then (Some OrderViolationError, s)
      else (None, s\<lparr>repeats := (repeats s)(Id \<mapsto> True),
                     selector := selector s @ ''#'' @ v,
                     order := order s @ [Id]\<rparr>))"

definition class' :: "string \<Rightarrow> CssSelector \<Rightarrow> outcome" where
  "class' className s =
     (if \<not> checkOrder Class s then (Some OrderViolationError, s)
      else (None, s\<lparr>selector := selector s @ ''.'' @ className,
                     order := order s @ [Class]\<rparr>))"

definition attr :: "string \<Rightarrow> CssSelector \<Rightarrow> outcome" where
  "attr v s =
     (if \<not> checkOrder Attr s then (Some OrderViolationError, s)
      else (None, s\<lparr>selector := selector s @ ''['' @ v @ '']'',
                     order := order s @ [Attr]\<rparr>))"

definition pseudoClass :: "string \<Rightarrow> CssSelector \<Rightarrow> outcome" where
  "pseudoClass v s =
     (if \<not> checkOrder PseudoClass s then (Some OrderViolationError, s)
      else (None, s\<lparr>selector := selector s @ '':'' @ v,
                     order := order s @ [PseudoClass]\<rparr>))"

definition pseudoElement :: "string \<Rightarrow> CssSelector \<Rightarrow> outcome" where
  "pseudoElement v s =
     (if truthy (repeats s PseudoElement) then (Some DuplicateFragmentError, s)
      else if \<not> checkOrder PseudoElement s then (Some OrderViolationError, s)
      else (None, s\<lparr>repeats := (repeats s)(PseudoElement \<mapsto> True),
                     selector := selector s @ ''::'' @ v,
                     order := order s @ [PseudoElement]\<rparr>))"

text \<open>
  \<open>combine\<close> reads the \<open>selector\<close> field of its two operands, then overwrites the receiver's
  \<open>selector\<close>; \<open>repeats\<close> and \<open>order\<close> of the receiver are not touched. It never throws.
\<close>

definition combine :: "CssSelector \<Rightarrow> string \<Rightarrow> CssSelector \<Rightarrow> CssSelector \<Rightarrow> CssSelector" where
  "combine selector1 combinator selector2 s =
     s\<lparr>selector := selector selector1 @ '' '' @ combinator @ '' '' @ selector selector2\<rparr>"

definition stringify :: "CssSelector \<Rightarrow> string" where
  "stringify s = selector s"

subsection \<open>The facade \<open>cssSelectorBuilder\<close>\<close>

text \<open>Every facade method constructs a new object and calls the method of the same name on it.\<close>

definition builder_element :: "string \<Rightarrow> outcome" where
  "builder_element v = element v constructor"

definition builder_id :: "string \<Rightarrow> outcome" where
  "builder_id v = id' v constructor"

definition builder_class :: "string \<Rightarrow> outcome" where
  "builder_class v = class' v constructor"

definition builder_attr :: "string \<Rightarrow> outcome" where
  "builder_attr v = attr v constructor"

definition builder_pseudoClass :: "string \<Rightarrow> outcome" where
  "builder_pseudoClass v = pseudoClass v constructor"

definition builder_pseudoElement :: "string \<Rightarrow> outcome" where
  "builder_pseudoElement v = pseudoElement v constructor"

definition builder_combine :: "CssSelector \<Rightarrow> string \<Rightarrow> CssSelector \<Rightarrow> CssSelector" where
  "builder_combine selector1 combinator selector2 =
     combine selector1 combinator selector2 constructor"

subsection \<open>Calling sequences\<close>

text \<open>The method selected by a fragment kind.\<close>

fun call :: "kind \<Rightarrow> string \<Rightarrow> CssSelector \<Rightarrow> outcome" where
  "call Element v s = element v s"
| "call Id v s = id' v s"
| "call Class v s = class' v s"
| "call Attr v s = attr v s"
| "call PseudoClass v s = pseudoClass v s"
| "call PseudoElement v s = pseudoElement v s"

text \<open>
  A fluent chain \<open>node.k\<^sub>1(v\<^sub>1).k\<^sub>2(v\<^sub>2)...\<close>: the first throw leaves the chain, and the
  remaining calls do not run.
\<close>

fun chain :: "(kind \<times> string) list \<Rightarrow> CssSelector \<Rightarrow> outcome" where
  "chain [] s = (None, s)"
| "chain ((k, v) # cs) s =
     (case call k v s of
        (Some e, s') \<Rightarrow> (Some e, s')
      | (None, s') \<Rightarrow> chain cs s')"

text \<open>
  An operation on one node: a fragment call, or \<open>combine\<close> invoked with the node as receiver.
  \<open>history\<close> performs a list of them on a node, every call in its own \<open>try\<close>/\<open>catch\<close>, so
  that calls after a throw still run on the same object.
\<close>

datatype operation = Fragment kind string | Combine CssSelector string CssSelector

fun perform :: "operation \<Rightarrow> CssSelector \<Rightarrow> outcome" where
  "perform (Fragment k v) s = call k v s"
| "perform (Combine selector1 combinator selector2) s =
     (None, combine selector1 combinator selector2 s)"

fun history :: "operation list \<Rightarrow> CssSelector \<Rightarrow> CssSelector" where
  "history [] s = s"
| "history (x # xs) s = history xs (snd (perform x s))"

subsection \<open>Objects by reference\<close>

text \<open>
  Builder handles are references to mutable objects. A heap is the list of the objects
  allocated so far and a reference is an index into it; \<open>new CssSelector()\<close> appends.
  Objects are never freed, so a reference a program holds is below the length of the heap;
  the properties of heaps are stated for such references.
\<close>

type_synonym ref = nat
type_synonym heap = "CssSelector list"

definition heap_new :: "heap \<Rightarrow> ref \<times> heap" where
  "heap_new h = (length h, h @ [constructor])"

definition heap_call :: "ref \<Rightarrow> kind \<Rightarrow> string \<Rightarrow> heap \<Rightarrow> error option \<times> heap" where
  "heap_call r k v h = (case call k v (h ! r) of (e, s') \<Rightarrow> (e, h[r := s']))"

definition heap_builder_combine :: "ref \<Rightarrow> string \<Rightarrow> ref \<Rightarrow> heap \<Rightarrow> ref \<times> heap" where
  "heap_builder_combine selector1 combinator selector2 h =
     (case heap_new h of
        (r, h') \<Rightarrow> (r, h'[r := combine (h' ! selector1) combinator (h' ! selector2) (h' ! r)]))"

definition heap_stringify :: "ref \<Rightarrow> heap \<Rightarrow> string" where
  "heap_stringify r h = stringify (h ! r)"

text \<open>Fragment calls on given references, one after the other, each throw caught.\<close>

fun heap_calls :: "(ref \<times> kind \<times> string) list \<Rightarrow> heap \<Rightarrow> heap" where
  "heap_calls [] h = h"
| "heap_calls ((r, k, v) # cs) h = heap_calls cs (snd (heap_call r k v h))"

subsection \<open>The vocabulary of the specification\<close>

text \<open>Element, id and pseudo-element are the kinds that may occur once only.\<close>

fun singleton :: "kind \<Rightarrow> bool" where
  "singleton Element = True"
| "singleton Id = True"
| "singleton PseudoElement = True"
| "singleton Class = False"
| "singleton Attr = False"
| "singleton PseudoClass = False"

text \<open>
  The textual form of a fragment as the specification gives it: \<open>elem\<close>, \<open>#id\<close>, \<open>.cls\<close>,
  \<open>[attr]\<close>, \<open>:pseudo\<close>, \<open>::pseudo\<close>.
\<close>

fun spec_template :: "kind \<Rightarrow> string \<Rightarrow> string" where
  "spec_template Element v = v"
| "spec_template Id v = ''#'' @ v"
| "spec_template Class v = ''.'' @ v"
| "spec_template Attr v = ''['' @ v @ '']''"
| "spec_template PseudoClass v = '':'' @ v"
| "spec_template PseudoElement v = ''::'' @ v"

text \<open>The sequence of ranks appended to a node.\<close>

definition ranks :: "CssSelector \<Rightarrow> nat list" where
  "ranks s = map orderValue (order s)"

text \<open>
  What every node is expected to satisfy: the appended ranks never decrease, and a kind that
  may occur once only has been appended at most once and is flagged in \<open>repeats\<close> exactly
  when it has been appended.
\<close>

definition invariant :: "CssSelector \<Rightarrow> bool" where
  "invariant s \<longleftrightarrow>
     sorted (ranks s) \<and>
     (\<forall>k. singleton k \<longrightarrow>
        count_list (order s) k \<le> 1 \<and> (truthy (repeats s k) \<longleftrightarrow> k \<in> set (order s)))"

section \<open>Properties\<close>

subsection \<open>Auxiliary facts\<close>

lemma fold_isInOrder:
  "fold (\<lambda>el isInOrder. if (n::nat) < f el then False else isInOrder) xs b
     = (b \<and> (\<forall>el\<in>set xs. f el \<le> n))"
  by (induction xs arbitrary: b) (auto simp: not_less)

lemma checkOrder_iff:
  "checkOrder k s \<longleftrightarrow> (\<forall>el\<in>set (order s). orderValue el \<le> orderValue k)"
  by (simp add: checkOrder_def fold_isInOrder)

text \<open>All six fragment methods follow one scheme.\<close>

lemma call_scheme:
  "call k v s =
     (if singleton k \<and> truthy (repeats s k) then (Some DuplicateFragmentError, s)
      else if \<not> checkOrder k s then (Some OrderViolationError, s)
      else (None, s\<lparr>repeats := (if singleton k then (repeats s)(k \<mapsto> True) else repeats s),
                     selector := selector s @ spec_template k v,
                     order := order s @ [k]\<rparr>))"
  by (cases k)
     (simp_all add: element_def id'_def class'_def attr_def pseudoClass_def pseudoElement_def)

lemma errors_differ: "DuplicateFragmentError \<noteq> OrderViolationError"
  by (simp add: DuplicateFragmentError_def OrderViolationError_def)

lemma call_unchanged_on_throw: "fst (call k v s) = Some e \<Longrightarrow> snd (call k v s) = s"
  by (simp add: call_scheme split: if_splits)

lemma call_accepts_iff:
  "fst (call k v s) = None \<longleftrightarrow> \<not> (singleton k \<and> truthy (repeats s k)) \<and> checkOrder k s"
  by (simp add: call_scheme)

lemma call_accepted_state:
  "fst (call k v s) = None \<Longrightarrow>
     snd (call k v s) =
       s\<lparr>repeats := (if singleton k then (repeats s)(k \<mapsto> True) else repeats s),
         selector := selector s @ spec_template k v,
         order := order s @ [k]\<rparr>"
  by (simp add: call_scheme split: if_splits)

lemma chain_accepts:
  assumes "sorted (map (\<lambda>c. orderValue (fst c)) calls)"
    and "\<forall>el\<in>set (order s). \<forall>c\<in>set calls. orderValue el \<le> orderValue (fst c)"
    and "\<forall>k. singleton k \<longrightarrow> count_list (map fst calls) k \<le> 1"
    and "\<forall>c\<in>set calls. singleton (fst c) \<longrightarrow> \<not> truthy (repeats s (fst c))"
  shows "fst (chain calls s) = None \<and>
         selector (snd (chain calls s)) =
           selector s @ concat (map (\<lambda>(k, v). spec_template k v) calls)"
  using assms
proof (induction calls arbitrary: s)
  case Nil
  then show ?case by simp
next
  case (Cons c cs)
  obtain k v where c: "c = (k, v)" by (cases c)
  let ?s = "snd (call k v s)"
  have ok: "fst (call k v s) = None"
    using Cons.prems(2,4) by (simp add: call_accepts_iff checkOrder_iff c)
  have st: "?s = s\<lparr>repeats := (if singleton k then (repeats s)(k \<mapsto> True) else repeats s),
         selector := selector s @ spec_template k v,
         order := order s @ [k]\<rparr>"
    by (rule call_accepted_state [OF ok])
  have 1: "sorted (map (\<lambda>c. orderValue (fst c)) cs)"
    using Cons.prems(1) by simp
  have 2: "\<forall>el\<in>set (order ?s). \<forall>c\<in>set cs. orderValue el \<le> orderValue (fst c)"
    using Cons.prems(1,2) by (auto simp: st c)
  have 3: "\<forall>k. singleton k \<longrightarrow> count_list (map fst cs) k \<le> 1"
  proof (intro allI impI)
    fix k' assume "singleton k'"
    then have "count_list (map fst (c # cs)) k' \<le> 1" using Cons.prems(3) by blast
    then show "count_list (map fst cs) k' \<le> 1" by (simp split: if_splits)
  qed
  have 4: "\<forall>c\<in>set cs. singleton (fst c) \<longrightarrow> \<not> truthy (repeats ?s (fst c))"
  proof (intro ballI impI)
    fix d assume d: "d \<in> set cs" and sd: "singleton (fst d)"
    have "fst d \<noteq> k"
    proof
      assume e: "fst d = k"
      then have "k \<in> set (map fst cs)" using d by force
      then have "count_list (map fst cs) k \<noteq> 0" by (metis count_list_0_iff)
      then have "count_list (map fst cs) k > 0" by simp
      then have "count_list (map fst (c # cs)) k > 1" by (simp add: c)
      moreover have "count_list (map fst (c # cs)) k \<le> 1" using Cons.prems(3) sd e by blast
      ultimately show False by simp
    qed
    moreover have "\<not> truthy (repeats s (fst d))" using Cons.prems(4) d sd by simp
    ultimately show "\<not> truthy (repeats ?s (fst d))" by (simp add: st)
  qed
  have ch: "chain (c # cs) s = chain cs ?s"
    using ok by (cases "call k v s") (auto simp: c)
  have ih: "fst (chain cs ?s) = None \<and>
         selector (snd (chain cs ?s)) =
           selector ?s @ concat (map (\<lambda>(k, v). spec_template k v) cs)"
    by (rule Cons.IH [OF 1 2 3 4])
  have sel: "selector ?s = selector s @ spec_template k v"
    by (simp add: st)
  show ?case
    unfolding ch using ih sel by (simp add: c)
qed

lemmas method_defs =
  element_def id'_def class'_def attr_def pseudoClass_def pseudoElement_def
  checkOrder_def constructor_def combine_def builder_combine_def stringify_def

lemma builder_is_first_call:
  "builder_element v = call Element v constructor"
  "builder_id v = call Id v constructor"
  "builder_class v = call Class v constructor"
  "builder_attr v = call Attr v constructor"
  "builder_pseudoClass v = call PseudoClass v constructor"
  "builder_pseudoElement v = call PseudoElement v constructor"
  by (simp_all add: builder_element_def builder_id_def builder_class_def builder_attr_def
      builder_pseudoClass_def builder_pseudoElement_def)

lemma perform_keeps_repeats: "truthy (repeats s k) \<Longrightarrow> truthy (repeats (snd (perform x s)) k)"
  by (cases x) (simp_all add: call_scheme combine_def)

lemma history_keeps_repeats: "truthy (repeats s k) \<Longrightarrow> truthy (repeats (history xs s) k)"
  by (induction xs arbitrary: s) (simp_all add: perform_keeps_repeats)

lemma chain_same_repeatable:
  "\<not> singleton k \<Longrightarrow> checkOrder k s \<Longrightarrow>
     fst (chain (map (Pair k) vs) s) = None \<and>
     selector (snd (chain (map (Pair k) vs) s)) = selector s @ concat (map (spec_template k) vs)"
proof (induction vs arbitrary: s)
  case Nil
  then show ?case by simp
next
  case (Cons v vs)
  let ?s = "snd (call k v s)"
  have ok: "fst (call k v s) = None"
    using Cons.prems by (simp add: call_accepts_iff)
  have ord: "order ?s = order s @ [k]" and sel: "selector ?s = selector s @ spec_template k v"
    using ok by (simp_all add: call_accepted_state)
  have "checkOrder k ?s"
    using Cons.prems(2) by (simp add: checkOrder_iff ord)
  then have ih: "fst (chain (map (Pair k) vs) ?s) = None \<and>
     selector (snd (chain (map (Pair k) vs) ?s)) = selector ?s @ concat (map (spec_template k) vs)"
    using Cons.IH Cons.prems(1) by blast
  have ch: "chain (map (Pair k) (v # vs)) s = chain (map (Pair k) vs) ?s"
    using ok by (cases "call k v s") auto
  show ?case unfolding ch using ih sel by simp
qed

lemma invariant_constructor: "invariant constructor"
  by (simp add: invariant_def ranks_def constructor_def)

lemma invariant_call:
  assumes "invariant s"
  shows "invariant (snd (call k v s))"
proof (cases "fst (call k v s)")
  case (Some e)
  then show ?thesis using assms by (simp add: call_unchanged_on_throw)
next
  case None
  then have ok: "\<not> (singleton k \<and> truthy (repeats s k))" and co: "checkOrder k s"
    by (simp_all add: call_accepts_iff)
  let ?s = "snd (call k v s)"
  have ord: "order ?s = order s @ [k]"
    and rp: "repeats ?s = (if singleton k then (repeats s)(k \<mapsto> True) else repeats s)"
    using None by (simp_all add: call_accepted_state)
  have 1: "sorted (ranks ?s)"
    using assms co by (simp add: invariant_def ranks_def ord sorted_append checkOrder_iff)
  have 2: "count_list (order ?s) k' \<le> 1 \<and> (truthy (repeats ?s k') \<longleftrightarrow> k' \<in> set (order ?s))"
    if sk: "singleton k'" for k'
  proof (cases "k' = k")
    case True
    then have "k \<notin> set (order s)"
      using assms ok sk by (simp add: invariant_def)
    then have "count_list (order s) k = 0" by (simp add: count_list_0_iff)
    then show ?thesis using True sk by (simp add: ord rp)
  next
    case False
    then show ?thesis using assms sk by (auto simp: invariant_def ord rp)
  qed
  show ?thesis unfolding invariant_def using 1 2 by blast
qed

lemma invariant_perform: "invariant s \<Longrightarrow> invariant (snd (perform x s))"
  by (cases x) (simp_all add: invariant_call, simp add: invariant_def ranks_def combine_def)

lemma invariant_history: "invariant s \<Longrightarrow> invariant (history xs s)"
  by (induction xs arbitrary: s) (simp_all add: invariant_perform)

lemma repeat_count:
  "\<not> singleton k \<Longrightarrow> checkOrder k s \<Longrightarrow>
     count_list (order (history (replicate n (Fragment k v)) s)) k = count_list (order s) k + n"
proof (induction n arbitrary: s)
  case 0
  then show ?case by simp
next
  case (Suc n)
  let ?s = "snd (call k v s)"
  have ok: "fst (call k v s) = None" using Suc.prems by (simp add: call_accepts_iff)
  then have ord: "order ?s = order s @ [k]" by (simp add: call_accepted_state)
  have "checkOrder k ?s" using Suc.prems(2) by (simp add: checkOrder_iff ord)
  then have "count_list (order (history (replicate n (Fragment k v)) ?s)) k = count_list (order ?s) k + n"
    using Suc.IH Suc.prems(1) by blast
  then show ?case by (simp add: ord)
qed

lemma heap_call_other: "r \<noteq> c \<Longrightarrow> snd (heap_call r k v h) ! c = h ! c"
  by (simp add: heap_call_def split: prod.splits)

lemma heap_calls_other: "\<forall>x\<in>set calls. fst x \<noteq> c \<Longrightarrow> heap_calls calls h ! c = h ! c"
proof (induction calls arbitrary: h)
  case Nil
  then show ?case by simp
next
  case (Cons x calls)
  obtain r k v where x: "x = (r, k, v)" by (cases x)
  have "r \<noteq> c" using Cons.prems by (simp add: x)
  then have "snd (heap_call r k v h) ! c = h ! c" by (rule heap_call_other)
  moreover have "heap_calls calls (snd (heap_call r k v h)) ! c = snd (heap_call r k v h) ! c"
    using Cons.IH Cons.prems by simp
  ultimately show ?case by (simp add: x)
qed

subsection \<open>Accepted chains\<close>

text \<open>
  Claim C1. A chain of fragment calls on a newly constructed node whose ranks never decrease
  and in which element, id and pseudo-element each occur at most once throws nowhere, and
  \<open>stringify()\<close> then returns the templates of the fragments applied to their values,
  concatenated in call order with nothing in between.
\<close>

theorem chain_stringify_concat:
  assumes "sorted (map (\<lambda>c. orderValue (fst c)) calls)"
    and "\<forall>k. singleton k \<longrightarrow> count_list (map fst calls) k \<le> 1"
  shows "fst (chain calls constructor) = None \<and>
         stringify (snd (chain calls constructor)) =
           concat (map (\<lambda>(k, v). spec_template k v) calls)"
  using chain_accepts [of calls constructor] assms
  by (simp add: constructor_def stringify_def)

theorem chain_stringify_concat_witness:
  "sorted (map (\<lambda>c. orderValue (fst c))
     [(Id, ''main''), (Class, ''container''), (Class, ''editable'')]) \<and>
   count_list (map fst [(Id, ''main''), (Class, ''container''), (Class, ''editable'')]) Element \<le> 1 \<and>
   count_list (map fst [(Id, ''main''), (Class, ''container''), (Class, ''editable'')]) Id \<le> 1 \<and>
   count_list (map fst [(Id, ''main''), (Class, ''container''), (Class, ''editable'')]) PseudoElement \<le> 1 \<and>
   fst (chain [(Id, ''main''), (Class, ''container''), (Class, ''editable'')] constructor) = None \<and>
   stringify (snd (chain [(Id, ''main''), (Class, ''container''), (Class, ''editable'')] constructor))
     = ''#main.container.editable''"
proof -
  have a: "sorted (map (\<lambda>c. orderValue (fst c))
     [(Id, ''main''), (Class, ''container''), (Class, ''editable'')])"
    by simp
  have b: "\<forall>k. singleton k \<longrightarrow>
      count_list (map fst [(Id, ''main''), (Class, ''container''), (Class, ''editable'')]) k \<le> 1"
    by simp
  show ?thesis using a b chain_stringify_concat [OF a b] by simp
qed

subsection \<open>The order check\<close>

text \<open>
  Claim C2, as stated, fails on a node built by \<open>id('a').pseudoElement('x')\<close>: the rank of
  id is below the rank of the pseudo-element already appended, yet \<open>id('b')\<close> on that node
  does not throw the order error.
\<close>

theorem order_error_counterexample:
  "fst (chain [(Id, ''a''), (PseudoElement, ''x'')] constructor) = None \<and>
   PseudoElement \<in> set (order (snd (chain [(Id, ''a''), (PseudoElement, ''x'')] constructor))) \<and>
   orderValue Id < orderValue PseudoElement \<and>
   fst (id' ''b'' (snd (chain [(Id, ''a''), (PseudoElement, ''x'')] constructor)))
     \<noteq> Some OrderViolationError"
  by (simp add: method_defs errors_differ)

text \<open>
  Claim C2, amended. Appending a fragment whose rank is strictly below the rank of some
  fragment already appended throws the order error and leaves the node as it was, unless the
  kind may occur once only and is already flagged in \<open>repeats\<close>. Appending a fragment whose
  rank is at least every appended rank passes \<open>checkOrder\<close> and does not throw the order
  error. A repeatable kind that was just accepted is accepted again by the next call.
\<close>

theorem order_check:
  "((\<exists>el\<in>set (order s). orderValue k < orderValue el) \<and> \<not> (singleton k \<and> truthy (repeats s k))
      \<longrightarrow> call k v s = (Some OrderViolationError, s)) \<and>
   ((\<forall>el\<in>set (order s). orderValue el \<le> orderValue k)
      \<longrightarrow> checkOrder k s \<and> fst (call k v s) \<noteq> Some OrderViolationError) \<and>
   (\<not> singleton k \<and> fst (call k v s) = None
      \<longrightarrow> fst (call k v' (snd (call k v s))) = None)"
proof (intro conjI impI)
  assume "(\<exists>el\<in>set (order s). orderValue k < orderValue el) \<and> \<not> (singleton k \<and> truthy (repeats s k))"
  then show "call k v s = (Some OrderViolationError, s)"
    by (auto simp: call_scheme checkOrder_iff not_le)
next
  assume a: "\<forall>el\<in>set (order s). orderValue el \<le> orderValue k"
  then show "checkOrder k s" by (simp add: checkOrder_iff)
  then show "fst (call k v s) \<noteq> Some OrderViolationError"
    using errors_differ by (simp add: call_scheme)
next
  assume a: "\<not> singleton k \<and> fst (call k v s) = None"
  then have ok: "checkOrder k s" by (simp add: call_accepts_iff)
  have st: "order (snd (call k v s)) = order s @ [k]"
    and rp: "repeats (snd (call k v s)) = repeats s"
    using a by (simp_all add: call_accepted_state)
  have "checkOrder k (snd (call k v s))"
    using ok by (simp add: checkOrder_iff st)
  then show "fst (call k v' (snd (call k v s))) = None"
    using a by (simp add: call_accepts_iff)
qed

theorem order_check_witness:
  "call Element ''a'' (snd (id' ''x'' constructor)) = (Some OrderViolationError, snd (id' ''x'' constructor)) \<and>
   checkOrder Class (snd (id' ''x'' constructor)) \<and>
   fst (call Class ''c'' (snd (id' ''x'' constructor))) = None \<and>
   fst (call Class ''d'' (snd (call Class ''c'' (snd (id' ''x'' constructor))))) = None"
  using order_check [of "snd (id' ''x'' constructor)" Element "''a''"]
    order_check [of "snd (id' ''x'' constructor)" Class "''c''" "''d''"]
  by (simp add: method_defs)

subsection \<open>The duplicate check\<close>

text \<open>
  Claim C3. Once a call of a kind that may occur once only was accepted by a node, a later
  call of the same kind on that node throws the duplicate error and changes nothing,
  whatever operations were performed on the node in between. The methods of the repeatable
  kinds never throw the duplicate error, and a run of calls of one repeatable kind on a node
  that passes the order check for it appends their templates in call order.
\<close>

theorem duplicate_error:
  "(singleton k \<and> fst (call k v s) = None \<longrightarrow>
      call k v' (history xs (snd (call k v s)))
        = (Some DuplicateFragmentError, history xs (snd (call k v s)))) \<and>
   (\<not> singleton k \<longrightarrow> fst (call k v s) \<noteq> Some DuplicateFragmentError) \<and>
   (\<not> singleton k \<and> checkOrder k s \<longrightarrow>
      fst (chain (map (Pair k) vs) s) = None \<and>
      stringify (snd (chain (map (Pair k) vs) s))
        = stringify s @ concat (map (spec_template k) vs))"
proof (intro conjI impI)
  assume a: "singleton k \<and> fst (call k v s) = None"
  then have "truthy (repeats (snd (call k v s)) k)"
    by (simp add: call_accepted_state)
  then have "truthy (repeats (history xs (snd (call k v s))) k)"
    by (rule history_keeps_repeats)
  then show "call k v' (history xs (snd (call k v s)))
        = (Some DuplicateFragmentError, history xs (snd (call k v s)))"
    using a by (simp add: call_scheme)
next
  assume "\<not> singleton k"
  then show "fst (call k v s) \<noteq> Some DuplicateFragmentError"
    using errors_differ by (simp add: call_scheme)
next
  assume a: "\<not> singleton k \<and> checkOrder k s"
  then show "fst (chain (map (Pair k) vs) s) = None"
    using chain_same_repeatable [of k s vs] by simp
  from a show "stringify (snd (chain (map (Pair k) vs) s))
        = stringify s @ concat (map (spec_template k) vs)"
    using chain_same_repeatable [of k s vs] by (simp add: stringify_def)
qed

theorem duplicate_error_witness:
  "call Element ''div''
     (history [Fragment Class ''c'', Fragment Id ''i'', Fragment PseudoClass ''hover'']
        (snd (call Element ''table'' constructor)))
     = (Some DuplicateFragmentError,
        history [Fragment Class ''c'', Fragment Id ''i'', Fragment PseudoClass ''hover'']
          (snd (call Element ''table'' constructor))) \<and>
   fst (call Class ''a'' constructor) \<noteq> Some DuplicateFragmentError \<and>
   stringify (snd (chain (map (Pair Class) [''a'', ''b'', ''a'']) constructor)) = ''.a.b.a''"
  using duplicate_error [of Element "''table''" constructor "''div''"
      "[Fragment Class ''c'', Fragment Id ''i'', Fragment PseudoClass ''hover'']"]
    duplicate_error [of Class "''a''" constructor _ _ "[''a'', ''b'', ''a'']"]
  by (simp add: method_defs)

subsection \<open>Combinations\<close>

text \<open>
  Claim C4. The combination of two selectors renders as the left operand's text, a space,
  the combinator as given, a space, and the right operand's text, for every combinator and
  all operands, combinations among them.
\<close>

theorem combine_stringify:
  "stringify (builder_combine left combinator right)
     = stringify left @ '' '' @ combinator @ '' '' @ stringify right \<and>
   stringify (builder_combine (builder_combine a c1 b) c2 (builder_combine d c3 e))
     = (stringify a @ '' '' @ c1 @ '' '' @ stringify b) @ '' '' @ c2 @ '' '' @
       (stringify d @ '' '' @ c3 @ '' '' @ stringify e)"
  by (simp add: builder_combine_def combine_def stringify_def)

theorem combine_stringify_witness:
  "stringify (builder_combine (snd (chain [(Element, ''div''), (Id, ''main'')] constructor)) ''+''
      (snd (builder_element ''span''))) = ''div#main + span'' \<and>
   stringify (builder_combine (snd (builder_element ''tr'')) '' '' (snd (builder_element ''td'')))
     = ''tr   td'' \<and>
   stringify (builder_combine (snd (builder_element ''a'')) ''not a combinator''
      (builder_combine (snd (builder_element ''b'')) ''~'' (snd (builder_element ''c''))))
     = ''a not a combinator b ~ c''"
  using combine_stringify
    [of "snd (chain [(Element, ''div''), (Id, ''main'')] constructor)" "''+''" "snd (builder_element ''span'')"]
    combine_stringify [of "snd (builder_element ''tr'')" "'' ''" "snd (builder_element ''td'')"]
    combine_stringify [of "snd (builder_element ''a'')" "''not a combinator''"
      "builder_combine (snd (builder_element ''b'')) ''~'' (snd (builder_element ''c''))"]
    combine_stringify [of "snd (builder_element ''b'')" "''~''" "snd (builder_element ''c'')"]
  by (simp add: method_defs builder_element_def)

subsection \<open>A throwing call changes nothing\<close>

text \<open>
  Claim C5. When a fragment method throws, the node is exactly what it was before the call:
  its text, its \<open>repeats\<close>, its \<open>order\<close>, and so the result of \<open>stringify()\<close>.
\<close>

theorem throw_leaves_node_unchanged:
  "fst (call k v s) = Some e \<Longrightarrow>
     snd (call k v s) = s \<and>
     selector (snd (call k v s)) = selector s \<and>
     repeats (snd (call k v s)) = repeats s \<and>
     order (snd (call k v s)) = order s \<and>
     stringify (snd (call k v s)) = stringify s"
  by (simp add: call_unchanged_on_throw)

theorem throw_leaves_node_unchanged_witness:
  "fst (call Id ''b'' (snd (call Id ''a'' constructor))) = Some DuplicateFragmentError \<and>
   snd (call Id ''b'' (snd (call Id ''a'' constructor))) = snd (call Id ''a'' constructor) \<and>
   stringify (snd (call Id ''b'' (snd (call Id ''a'' constructor)))) = ''#a''"
proof -
  have t: "fst (call Id ''b'' (snd (call Id ''a'' constructor))) = Some DuplicateFragmentError"
    by (simp add: method_defs)
  show ?thesis
    using t throw_leaves_node_unchanged [OF t] by (simp add: method_defs)
qed

subsection \<open>The node invariant\<close>

text \<open>
  Claim C6. After any list of operations on a new node, accepted or throwing, the appended
  ranks are non-decreasing, and element, id and pseudo-element have each been appended at
  most once and are flagged in \<open>repeats\<close> exactly when they were appended; a repeatable kind
  can be appended any number \<open>n\<close> of times.
\<close>

theorem node_invariant:
  "sorted (ranks (history xs constructor)) \<and>
   (\<forall>k. singleton k \<longrightarrow>
      count_list (order (history xs constructor)) k \<le> 1 \<and>
      (truthy (repeats (history xs constructor) k) \<longleftrightarrow> k \<in> set (order (history xs constructor)))) \<and>
   (\<forall>k. \<not> singleton k \<longrightarrow>
      count_list (order (history (replicate n (Fragment k v)) constructor)) k = n)"
proof (intro conjI allI impI)
  have inv: "invariant (history xs constructor)"
    by (rule invariant_history [OF invariant_constructor])
  then show "sorted (ranks (history xs constructor))" by (simp add: invariant_def)
  fix k assume "singleton k"
  with inv show "count_list (order (history xs constructor)) k \<le> 1"
    and "truthy (repeats (history xs constructor) k) \<longleftrightarrow> k \<in> set (order (history xs constructor))"
    by (simp_all add: invariant_def)
next
  fix k assume "\<not> singleton k"
  moreover have "checkOrder k constructor" by (simp add: checkOrder_iff constructor_def)
  ultimately show "count_list (order (history (replicate n (Fragment k v)) constructor)) k = n"
    using repeat_count [of k constructor n v] by (simp add: constructor_def)
qed

theorem node_invariant_witness:
  "order (history [Fragment Id ''a'', Fragment Element ''e'', Fragment Class ''c'', Fragment Id ''b'',
         Combine constructor ''+'' constructor, Fragment Class ''d'', Fragment PseudoElement ''x'',
         Fragment Class ''f''] constructor) = [Id, Class, Class, PseudoElement] \<and>
   sorted (ranks (history [Fragment Id ''a'', Fragment Element ''e'', Fragment Class ''c'', Fragment Id ''b'',
         Combine constructor ''+'' constructor, Fragment Class ''d'', Fragment PseudoElement ''x'',
         Fragment Class ''f''] constructor)) \<and>
   count_list (order (history [Fragment Id ''a'', Fragment Element ''e'', Fragment Class ''c'', Fragment Id ''b'',
         Combine constructor ''+'' constructor, Fragment Class ''d'', Fragment PseudoElement ''x'',
         Fragment Class ''f''] constructor)) Id \<le> 1 \<and>
   count_list (order (history (replicate 3 (Fragment Class ''c'')) constructor)) Class = 3"
  using node_invariant [of "[Fragment Id ''a'', Fragment Element ''e'', Fragment Class ''c'', Fragment Id ''b'',
         Combine constructor ''+'' constructor, Fragment Class ''d'', Fragment PseudoElement ''x'',
         Fragment Class ''f'']" 3 "''c''"]
  by (simp add: method_defs)

subsection \<open>What an accepted call records\<close>

text \<open>
  Claim C7, as stated, fails for \<open>class\<close>: the call is accepted by a new node, and
  \<open>repeats\<close> has no entry for the class kind afterwards.
\<close>

theorem class_not_recorded_counterexample:
  "fst (class' ''a'' constructor) = None \<and>
   repeats (snd (class' ''a'' constructor)) Class = None \<and>
   \<not> truthy (repeats (snd (class' ''a'' constructor)) Class)"
  by (simp add: method_defs)

text \<open>
  Claim C7, amended. An accepted fragment call of any kind pushes the kind onto \<open>order\<close>,
  that is its rank onto the sequence of appended ranks. It flags the kind in \<open>repeats\<close> when
  the kind is element, id or pseudo-element, and leaves \<open>repeats\<close> as it was when the kind
  is class, attribute or pseudo-class.
\<close>

theorem accepted_append_records:
  "fst (call k v s) = None \<Longrightarrow>
     order (snd (call k v s)) = order s @ [k] \<and>
     ranks (snd (call k v s)) = ranks s @ [orderValue k] \<and>
     (singleton k \<longrightarrow> repeats (snd (call k v s)) = (repeats s)(k \<mapsto> True)) \<and>
     (\<not> singleton k \<longrightarrow> repeats (snd (call k v s)) = repeats s)"
  by (simp add: call_accepted_state ranks_def)

theorem accepted_append_records_witness:
  "fst (call PseudoElement ''x'' (snd (call Class ''c'' constructor))) = None \<and>
   order (snd (call PseudoElement ''x'' (snd (call Class ''c'' constructor)))) = [Class, PseudoElement] \<and>
   ranks (snd (call PseudoElement ''x'' (snd (call Class ''c'' constructor)))) = [2, 5] \<and>
   repeats (snd (call PseudoElement ''x'' (snd (call Class ''c'' constructor))))
     = [PseudoElement \<mapsto> True] \<and>
   fst (call Class ''c'' constructor) = None \<and>
   repeats (snd (call Class ''c'' constructor)) = Map.empty"
proof -
  have a: "fst (call PseudoElement ''x'' (snd (call Class ''c'' constructor))) = None"
    by (simp add: method_defs)
  have b: "fst (call Class ''c'' constructor) = None"
    by (simp add: method_defs)
  show ?thesis
    using a b accepted_append_records [OF a] accepted_append_records [OF b]
    by (simp add: method_defs ranks_def)
qed

subsection \<open>A combination does not follow its operands\<close>

text \<open>
  Claim C8. The facade's \<open>combine\<close> allocates a new object holding the text of its operands
  as they are at that moment. Fragment calls made afterwards on the operands, or on any
  other object that existed before, leave the text of the combination as it was.
\<close>

theorem combination_is_snapshot:
  assumes "a < length h" and "b < length h"
    and "\<forall>x\<in>set calls. fst x < length h"
    and "heap_builder_combine a comb b h = (c, h')"
  shows "heap_stringify c (heap_calls calls h') = heap_stringify c h' \<and>
         heap_stringify c h' = heap_stringify a h @ '' '' @ comb @ '' '' @ heap_stringify b h"
proof -
  have c: "c = length h"
    and h': "h' = (h @ [constructor])[length h :=
        combine ((h @ [constructor]) ! a) comb ((h @ [constructor]) ! b) ((h @ [constructor]) ! length h)]"
    using assms(4) by (auto simp: heap_builder_combine_def heap_new_def)
  have "\<forall>x\<in>set calls. fst x \<noteq> c" using assms(3) c by auto
  then have 1: "heap_calls calls h' ! c = h' ! c" by (rule heap_calls_other)
  have 2: "h' ! c = combine (h ! a) comb (h ! b) constructor"
    using assms(1,2) by (simp add: c h' nth_append)
  show ?thesis
    using 1 2 by (simp add: heap_stringify_def stringify_def combine_def)
qed

theorem combination_is_snapshot_witness:
  "heap_builder_combine 0 ''+'' 1 [snd (builder_element ''div''), snd (builder_element ''span'')]
     = (2, [snd (builder_element ''div''), snd (builder_element ''span''),
            builder_combine (snd (builder_element ''div'')) ''+'' (snd (builder_element ''span''))]) \<and>
   heap_stringify 0 (heap_calls [(0, Class, ''x''), (1, Id, ''y''), (0, Element, ''z'')]
     [snd (builder_element ''div''), snd (builder_element ''span''),
      builder_combine (snd (builder_element ''div'')) ''+'' (snd (builder_element ''span''))])
     = ''div.x'' \<and>
   heap_stringify 2 (heap_calls [(0, Class, ''x''), (1, Id, ''y''), (0, Element, ''z'')]
     [snd (builder_element ''div''), snd (builder_element ''span''),
      builder_combine (snd (builder_element ''div'')) ''+'' (snd (builder_element ''span''))])
     = ''div + span''"
proof -
  let ?h = "[snd (builder_element ''div''), snd (builder_element ''span'')]"
  let ?h' = "[snd (builder_element ''div''), snd (builder_element ''span''),
      builder_combine (snd (builder_element ''div'')) ''+'' (snd (builder_element ''span''))]"
  let ?calls = "[(0, Class, ''x''), (1, Id, ''y''), (0, Element, ''z'')] :: (ref \<times> kind \<times> string) list"
  have a: "0 < length ?h" and b: "1 < length ?h" by simp_all
  have cs: "\<forall>x\<in>set ?calls. fst x < length ?h" by simp
  have e: "heap_builder_combine 0 ''+'' 1 ?h = (2, ?h')"
    by (simp add: heap_builder_combine_def heap_new_def builder_combine_def)
  have m: "heap_stringify 0 (heap_calls ?calls ?h') = ''div.x''"
    by (simp add: heap_call_def heap_stringify_def builder_element_def method_defs)
  show ?thesis
    using e m combination_is_snapshot [OF a b cs e]
    by (simp add: heap_stringify_def builder_element_def method_defs)
qed

subsection \<open>Fragments on a combination\<close>

text \<open>
  Claim C9. The object returned by the facade's \<open>combine\<close> has empty \<open>repeats\<close> and \<open>order\<close>,
  so a fragment call of any kind on it is accepted and appends the fragment's template to
  the combined text.
\<close>

theorem fragment_on_combination:
  "repeats (builder_combine a comb b) = Map.empty \<and>
   order (builder_combine a comb b) = [] \<and>
   fst (call k v (builder_combine a comb b)) = None \<and>
   stringify (snd (call k v (builder_combine a comb b)))
     = stringify (builder_combine a comb b) @ spec_template k v"
proof -
  let ?c = "builder_combine a comb b"
  have r: "repeats ?c = Map.empty" and ord: "order ?c = []"
    by (simp_all add: builder_combine_def combine_def constructor_def)
  have ok: "fst (call k v ?c) = None"
    by (simp add: call_accepts_iff checkOrder_iff r ord)
  then have "selector (snd (call k v ?c)) = selector ?c @ spec_template k v"
    by (simp add: call_accepted_state)
  then show ?thesis using r ord ok by (simp add: stringify_def)
qed

theorem fragment_on_combination_witness:
  "stringify (snd (class' ''x''
      (builder_combine (snd (builder_pseudoElement ''after'')) ''>'' (snd (builder_id ''m'')))))
     = ''::after > #m.x'' \<and>
   fst (element ''p''
      (builder_combine (snd (builder_pseudoElement ''after'')) ''>'' (snd (builder_id ''m'')))) = None \<and>
   stringify (snd (element ''p''
      (builder_combine (snd (builder_pseudoElement ''after'')) ''>'' (snd (builder_id ''m'')))))
     = ''::after > #mp''"
  using fragment_on_combination
      [of "snd (builder_pseudoElement ''after'')" "''>''" "snd (builder_id ''m'')" Class "''x''"]
    fragment_on_combination
      [of "snd (builder_pseudoElement ''after'')" "''>''" "snd (builder_id ''m'')" Element "''p''"]
  by (simp add: builder_pseudoElement_def builder_id_def method_defs)

subsection \<open>Which error comes first\<close>

text \<open>
  Claim C10. When a call of a kind that may occur once only finds the kind flagged in
  \<open>repeats\<close> and a fragment of higher rank in \<open>order\<close>, so that both checks would fail, it
  throws the duplicate error and not the order error.
\<close>

theorem duplicate_before_order:
  assumes "singleton k" and "truthy (repeats s k)"
    and "\<exists>el\<in>set (order s). orderValue k < orderValue el"
  shows "\<not> checkOrder k s \<and>
         call k v s = (Some DuplicateFragmentError, s) \<and>
         fst (call k v s) \<noteq> Some OrderViolationError"
  using assms errors_differ by (auto simp: call_scheme checkOrder_iff not_le)

theorem duplicate_before_order_witness:
  "chain [(Id, ''a''), (PseudoElement, ''x''), (Id, ''b'')] constructor
     = (Some DuplicateFragmentError, snd (chain [(Id, ''a''), (PseudoElement, ''x'')] constructor)) \<and>
   \<not> checkOrder Id (snd (chain [(Id, ''a''), (PseudoElement, ''x'')] constructor))"
proof -
  let ?s = "snd (chain [(Id, ''a''), (PseudoElement, ''x'')] constructor)"
  have 1: "singleton Id" by simp
  have 2: "truthy (repeats ?s Id)" by (simp add: method_defs)
  have 3: "\<exists>el\<in>set (order ?s). orderValue Id < orderValue el" by (simp add: method_defs)
  have 4: "chain [(Id, ''a''), (PseudoElement, ''x''), (Id, ''b'')] constructor = call Id ''b'' ?s"
    by (simp add: method_defs)
  show ?thesis
    using duplicate_before_order [OF 1 2 3, of "''b''"] unfolding 4 by simp
qed

end
